theory Spec2Isabelle
  imports Main "HOL-Library.Finite_Map"
begin

section \<open>Data model of \<^verbatim>\<open>src/components/Main.tsx\<close>\<close>

text \<open>
  The client keeps a \<^verbatim>\<open>World\<close> object that is updated by \<^verbatim>\<open>updateWorld(diff)\<close>.
  All identifiers, slots and counters are TypeScript \<^verbatim>\<open>number\<close>s that the server
  sends as integers; they are modelled as \<open>int\<close>. Record fields keep the names of the
  source; a field name that occurs in several TypeScript types carries a suffix naming
  its record (\<open>slot_b\<close> for \<^verbatim>\<open>BlockSummary.slot\<close>, \<open>slot_te\<close> for \<^verbatim>\<open>TreeEntry.slot\<close>, ...).
\<close>

type_synonym BlockPtr = int

type_synonym AttestationPtr = int

type_synonym LatestVotesPtr = int

type_synonym Gwei = int

type_synonym Slot = int

type_synonym ValidatorIndex = int

type_synonym DepositIndex = int

type_synonym CommitteeIndex = int

type_synonym Root = string

record FFG =
  source_ffg :: Gwei
  target_ffg :: Gwei
  head_ffg :: Gwei

record ValidatorCounts =
  total_vc :: int
  active :: int
  slashed :: int
  eligible :: int
  nonEligible :: int
  exiting :: int
  withdrawable :: int

record Eth1Data =
  depositRoot :: Root
  depositCount :: DepositIndex
  blockHash :: Root

record HeadSummary =
  headBlock :: BlockPtr
  slot_hs :: Slot
  proposerIndex :: ValidatorIndex
  validatorCounts :: ValidatorCounts
  totalStaked :: Gwei
  avgBalance :: Gwei
  depositIndex :: DepositIndex
  eth1Data :: Eth1Data
  previousFFG :: FFG
  currentFFG :: FFG

record BlockSummary =
  selfPtr_b :: BlockPtr
  htr :: Root
  slot_b :: Slot
  parent_b :: BlockPtr

record AttestationSummary =
  selfPtr_a :: AttestationPtr
  slot_a :: Slot
  commIndex :: CommitteeIndex
  head_a :: BlockPtr
  target_a :: BlockPtr
  source_a :: BlockPtr

record VoteSummary =
  validatorIndex :: ValidatorIndex
  attestationPtr :: AttestationPtr

record MemoryState =
  head_ms :: BlockPtr
  finalized_ms :: BlockPtr
  blocks_ms :: BlockPtr
  attestations_ms :: AttestationPtr
  latestVotes_ms :: LatestVotesPtr

record MemoryDiff =
  diffIndex :: int
  previous :: MemoryState
  head_d :: "HeadSummary list"
  finalized_d :: "BlockPtr list"
  blocks_d :: "BlockSummary list"
  attestations_d :: "AttestationSummary list"
  latestVotes_d :: "VoteSummary list"

text \<open>
  A coordinate handed to \<^verbatim>\<open>position.set\<close>. The layout multiplies a looked-up order by
  a constant; when the lookup yields \<^verbatim>\<open>undefined\<close> the product is \<^verbatim>\<open>NaN\<close>.
  A \<open>Point\<close> records the two arguments of the latest \<^verbatim>\<open>position.set\<close> call on a
  sprite, \<open>(Num 0, Num 0)\<close> for a sprite that was never positioned.
\<close>

datatype jsnum = Num int | NaN

type_synonym Point = "jsnum \<times> jsnum"

text \<open>
  \<^verbatim>\<open>PixiValidator.lastVotes\<close> holds references to \<^verbatim>\<open>PixiAttestation\<close> objects; only
  their immutable \<^verbatim>\<open>attestation\<close> summary is ever read through these references, so
  the list is modelled as a list of summaries. The sprite references of a
  \<^verbatim>\<open>PixiAttestation\<close> (\<^verbatim>\<open>source\<close>, \<^verbatim>\<open>target\<close>, \<^verbatim>\<open>head\<close>, each \<^verbatim>\<open>PixiBlock | null\<close>) are modelled
  by the pointer of the referenced block, \<open>None\<close> for \<^verbatim>\<open>null\<close>.
\<close>

record PixiValidator =
  index :: ValidatorIndex
  lastVotes :: "AttestationSummary list"

record PixiBlock =
  block :: BlockSummary
  position_b :: Point

record PixiAttestation =
  attestation :: AttestationSummary
  source_pa :: "BlockPtr option"
  target_pa :: "BlockPtr option"
  head_pa :: "BlockPtr option"
  position_a :: Point

record TreeEntry =
  parent_te :: BlockPtr
  slot_te :: Slot
  children :: "BlockPtr list"

text \<open>
  \<^verbatim>\<open>relationLines\<close> is a \<^verbatim>\<open>PIXI.Graphics\<close> that \<^verbatim>\<open>drawRelations\<close> draws into and never
  clears. Each drawn segment is recorded by the two sprites it joins (the screen
  coordinates come from the rendering library).
\<close>

datatype RelationLine =
    ParentLine BlockPtr BlockPtr
  | VoteLine ValidatorIndex AttestationPtr nat
  | SourceLine AttestationPtr BlockPtr
  | TargetLine AttestationPtr BlockPtr
  | HeadLine AttestationPtr BlockPtr

text \<open>
  The \<^verbatim>\<open>World\<close>. The three \<^verbatim>\<open>PIXI.Container\<close>s are the lists of their children in
  insertion order. \<^verbatim>\<open>tree\<close> is a JavaScript object used as a finite map from block
  pointers to entries. The validator grid (\<^verbatim>\<open>valGridWidth\<close>, \<^verbatim>\<open>valGridHeight\<close> and the
  validator sprite positions computed with \<^verbatim>\<open>Math.sqrt\<close> from the viewport size) and
  the translation of the two DAG containers are floating-point rendering data and are
  not part of the model.
\<close>

record World =
  valCount :: int
  blocks_w :: "PixiBlock list"
  attestations_w :: "PixiAttestation list"
  validators_w :: "PixiValidator list"
  head_w :: "HeadSummary list"
  finalized_w :: "BlockPtr list"
  relationLines :: "RelationLine list"
  tree :: "(BlockPtr, TreeEntry) fmap"
  nextDiffIndex :: "int option"

datatype UpdateResult = too_old | ok | too_new

text \<open>The state built by the constructor of \<^verbatim>\<open>World\<close>.\<close>

definition initialWorld :: World where
  "initialWorld =
     \<lparr>valCount = 0, blocks_w = [], attestations_w = [], validators_w = [], head_w = [],
      finalized_w = [], relationLines = [], tree = fmempty, nextDiffIndex = None\<rparr>"

section \<open>Lookups by sprite name\<close>

text \<open>
  \<^verbatim>\<open>getChildByName\<close> returns the first child carrying the name, or \<^verbatim>\<open>null\<close>. Names are
  \<^verbatim>\<open>"block_" + selfPtr\<close>, \<^verbatim>\<open>"att_" + selfPtr\<close> and \<^verbatim>\<open>"val_" + index\<close>, so two names are
  equal exactly when the numbers are.
\<close>

definition getBlock :: "World \<Rightarrow> BlockPtr \<Rightarrow> PixiBlock option" where
  "getBlock w blockPtr = find (\<lambda>pb. selfPtr_b (block pb) = blockPtr) (blocks_w w)"

definition getAttestation :: "World \<Rightarrow> AttestationPtr \<Rightarrow> PixiAttestation option" where
  "getAttestation w attPtr = find (\<lambda>pa. selfPtr_a (attestation pa) = attPtr) (attestations_w w)"

definition getValidator :: "World \<Rightarrow> ValidatorIndex \<Rightarrow> PixiValidator option" where
  "getValidator w vi = find (\<lambda>pv. index pv = vi) (validators_w w)"

section \<open>Validators\<close>

text \<open>
  \<^verbatim>\<open>PixiValidator.addVote\<close>: push, sort with the comparator
  \<^verbatim>\<open>(a, b) => a.attestation.target - b.attestation.target\<close> (ascending in the target
  pointer, stable), keep the first three.
\<close>

definition addVote :: "PixiValidator \<Rightarrow> AttestationSummary \<Rightarrow> PixiValidator" where
  "addVote val att =
     (let pushed = lastVotes val @ [att];
          sorted_votes = sort_key target_a pushed
      in val\<lparr>lastVotes := (if length sorted_votes > 3 then take 3 sorted_votes
                             else sorted_votes)\<rparr>)"

text \<open>
  \<^verbatim>\<open>updateValSet\<close>: one new validator sprite for every index from the old count up to
  the new one, then the count is stored.
\<close>

definition newValidator :: "ValidatorIndex \<Rightarrow> PixiValidator" where
  "newValidator vi = \<lparr>index = vi, lastVotes = []\<rparr>"

definition updateValSet :: "World \<Rightarrow> int \<Rightarrow> World" where
  "updateValSet w newValCount =
     w\<lparr>validators_w := validators_w w @ map newValidator [valCount w .. newValCount - 1],
       valCount := newValCount\<rparr>"

section \<open>Tree index, attestations and votes\<close>

text \<open>
  The body of the block loop of \<^verbatim>\<open>updateWorld\<close> on the tree. \<^verbatim>\<open>prevSelf\<close> is a reference
  to the entry stored in the tree: after \<^verbatim>\<open>prevSelf.parent = b.parent\<close> the later test
  \<^verbatim>\<open>prevSelf.parent == 0\<close> reads the value just written. The model therefore reads the
  parent field from the updated tree \<open>tree1\<close>. \<^verbatim>\<open>prevParent\<close> is looked up after the first
  update as well, so it is the new entry itself when a block names itself as parent.
\<close>

definition updateTree :: "(BlockPtr, TreeEntry) fmap \<Rightarrow> BlockSummary \<Rightarrow> (BlockPtr, TreeEntry) fmap" where
  "updateTree tr b =
     (let prevSelf = fmlookup tr (selfPtr_b b);
          tree1 = (case prevSelf of
                     Some e \<Rightarrow> fmupd (selfPtr_b b) (e\<lparr>parent_te := parent_b b, slot_te := slot_b b\<rparr>) tr
                   | None \<Rightarrow> fmupd (selfPtr_b b)
                       \<lparr>parent_te = parent_b b, slot_te = slot_b b, children = [selfPtr_b b]\<rparr> tr);
          prevParent = fmlookup tree1 (parent_b b)
      in case prevParent of
           Some p \<Rightarrow>
             (if prevSelf = None \<or> map_option parent_te (fmlookup tree1 (selfPtr_b b)) = Some 0
              then fmupd (parent_b b) (p\<lparr>children := children p @ [selfPtr_b b]\<rparr>) tree1
              else tree1)
         | None \<Rightarrow>
             fmupd (parent_b b) \<lparr>parent_te = 0, slot_te = 0, children = [selfPtr_b b]\<rparr> tree1)"

definition newBlock :: "BlockSummary \<Rightarrow> PixiBlock" where
  "newBlock b = \<lparr>block = b, position_b = (Num 0, Num 0)\<rparr>"

definition addBlock :: "World \<Rightarrow> BlockSummary \<Rightarrow> World" where
  "addBlock w b = w\<lparr>blocks_w := blocks_w w @ [newBlock b], tree := updateTree (tree w) b\<rparr>"

text \<open>The attestation loop: each reference is resolved against the blocks known now.\<close>

definition resolveBlock :: "World \<Rightarrow> BlockPtr \<Rightarrow> BlockPtr option" where
  "resolveBlock w p = map_option (\<lambda>pb. selfPtr_b (block pb)) (getBlock w p)"

definition addAttestation :: "World \<Rightarrow> AttestationSummary \<Rightarrow> World" where
  "addAttestation w a =
     w\<lparr>attestations_w := attestations_w w @
         [\<lparr>attestation = a, source_pa = resolveBlock w (source_a a),
           target_pa = resolveBlock w (target_a a), head_pa = resolveBlock w (head_a a),
           position_a = (Num 0, Num 0)\<rparr>]\<rparr>"

text \<open>
  The vote loop. \<^verbatim>\<open>val\<close> is the first validator sprite with the index; \<^verbatim>\<open>addVote\<close>
  mutates that sprite in place.
\<close>

fun update_first :: "('a \<Rightarrow> bool) \<Rightarrow> ('a \<Rightarrow> 'a) \<Rightarrow> 'a list \<Rightarrow> 'a list" where
  "update_first P f [] = []"
| "update_first P f (x # xs) = (if P x then f x # xs else x # update_first P f xs)"

definition foldVote :: "World \<Rightarrow> VoteSummary \<Rightarrow> World" where
  "foldVote w vote =
     (case getValidator w (validatorIndex vote) of
        None \<Rightarrow> w
      | Some val \<Rightarrow>
          (case getAttestation w (attestationPtr vote) of
             None \<Rightarrow> w
           | Some att \<Rightarrow>
               w\<lparr>validators_w :=
                   update_first (\<lambda>pv. index pv = validatorIndex vote)
                     (\<lambda>pv. addVote pv (attestation att)) (validators_w w)\<rparr>))"

section \<open>Layout\<close>

text \<open>The two local tables of \<^verbatim>\<open>layoutDag\<close>.\<close>

record LayoutVars =
  order :: "BlockPtr \<rightharpoonup> int"
  slotHeights :: "Slot \<rightharpoonup> int"

text \<open>
  The closure \<^verbatim>\<open>process_block\<close> together with its loop over the children of the entry.
\<close>

function process_block :: "(BlockPtr, TreeEntry) fmap \<Rightarrow> BlockPtr \<Rightarrow> LayoutVars \<Rightarrow> LayoutVars"
  and process_children :: "(BlockPtr, TreeEntry) fmap \<Rightarrow> BlockPtr list \<Rightarrow> LayoutVars \<Rightarrow> LayoutVars"
  where
  "process_block t b v =
     (case fmlookup t b of
        None \<Rightarrow> v
      | Some treeData \<Rightarrow>
          (let n = (case slotHeights v (slot_te treeData) of Some k \<Rightarrow> k + 1 | None \<Rightarrow> 1);
               v1 = v\<lparr>slotHeights := (slotHeights v)(slot_te treeData \<mapsto> n)\<rparr>;
               v2 = v1\<lparr>order := (order v1)(b \<mapsto> n - 1)\<rparr>
           in process_children t (children treeData) v2))"
| "process_children t [] v = v"
| "process_children t (child # rest) v =
     (if order v child = None
      then process_children t rest (process_block t child v)
      else process_children t rest v)"
  by pat_completeness auto

lemma process_order_grows:
  "process_block_process_children_dom (Inl (t, b, v)) \<Longrightarrow>
     dom (order v) \<subseteq> dom (order (process_block t b v))"
  "process_block_process_children_dom (Inr (t, cs, v)) \<Longrightarrow>
     dom (order v) \<subseteq> dom (order (process_children t cs v))"
proof (induction rule: process_block_process_children.pinduct)
  case (1 t b v)
  show ?case
  proof (cases "fmlookup t b")
    case None
    with 1(1) show ?thesis by (simp add: process_block.psimps)
  next
    case (Some e)
    define n where "n = (case slotHeights v (slot_te e) of Some k \<Rightarrow> k + 1 | None \<Rightarrow> 1)"
    define v1 where "v1 = v\<lparr>slotHeights := (slotHeights v)(slot_te e \<mapsto> n)\<rparr>"
    define v2 where "v2 = v1\<lparr>order := (order v1)(b \<mapsto> n - 1)\<rparr>"
    have "dom (order v2) \<subseteq> dom (order (process_children t (children e) v2))"
      using 1(2)[OF Some n_def v1_def v2_def] .
    moreover have "dom (order v) \<subseteq> dom (order v2)"
      by (auto simp: v2_def v1_def)
    moreover have "process_block t b v = process_children t (children e) v2"
      using 1(1) Some by (simp add: process_block.psimps Let_def v2_def v1_def n_def)
    ultimately show ?thesis by (metis subset_trans)
  qed
next
  case (2 t v)
  then show ?case by (simp add: process_children.psimps)
next
  case (3 t child rest v)
  show ?case
  proof (cases "order v child = None")
    case True
    have "dom (order v) \<subseteq> dom (order (process_block t child v))"
      using 3(2)[OF True] .
    moreover have "dom (order (process_block t child v))
        \<subseteq> dom (order (process_children t rest (process_block t child v)))"
      using 3(3)[OF True] .
    moreover have "process_children t (child # rest) v
        = process_children t rest (process_block t child v)"
      using 3(1) True by (simp add: process_children.psimps)
    ultimately show ?thesis by (metis subset_trans)
  next
    case False
    from 3(4)[OF False] 3(1) False show ?thesis
      by (auto simp: process_children.psimps)
  qed
qed

text \<open>
  Every recursive call either orders a tree entry that had no order yet, or works on a
  shorter list of children: the recursion ends on every tree, cyclic ones included.
\<close>

definition process_measure ::
  "((BlockPtr, TreeEntry) fmap \<times> BlockPtr \<times> LayoutVars) +
   ((BlockPtr, TreeEntry) fmap \<times> BlockPtr list \<times> LayoutVars) \<Rightarrow> nat \<times> nat \<times> nat" where
  "process_measure a =
     (case a of
        Inl (t, b, v) \<Rightarrow>
          (if b \<in> fmdom' t then (card (fmdom' t - dom (order v) - {b}), 1, 0) else (0, 0, 0))
      | Inr (t, cs, v) \<Rightarrow> (card (fmdom' t - dom (order v)), 0, length cs))"

lemma process_measure_enter:
  assumes "fmlookup t b = Some e"
    and "dom (order v') = insert b (dom (order v))"
  shows "(process_measure (Inr (t, cs, v')), process_measure (Inl (t, b, v)))
          \<in> less_than <*lex*> less_than <*lex*> less_than"
proof -
  have "b \<in> fmdom' t" using assms(1) by (simp add: fmlookup_dom'_iff)
  moreover have "fmdom' t - insert b (dom (order v)) = fmdom' t - dom (order v) - {b}"
    by blast
  ultimately show ?thesis using assms(2) by (simp add: process_measure_def)
qed

lemma process_measure_child:
  assumes "order v child = None"
  shows "(process_measure (Inl (t, child, v)), process_measure (Inr (t, child # rest, v)))
          \<in> less_than <*lex*> less_than <*lex*> less_than"
proof (cases "child \<in> fmdom' t")
  case True
  have fin: "finite (fmdom' t - dom (order v))" by simp
  have mem: "child \<in> fmdom' t - dom (order v)" using True assms by (simp add: domIff)
  have "card (fmdom' t - dom (order v) - {child}) < card (fmdom' t - dom (order v))"
    using fin mem by (rule card_Diff1_less)
  with True show ?thesis by (simp add: process_measure_def)
next
  case False
  then show ?thesis by (auto simp: process_measure_def)
qed

lemma process_measure_rest:
  assumes "dom (order v) \<subseteq> dom (order v')"
  shows "(process_measure (Inr (t, rest, v')), process_measure (Inr (t, child # rest, v)))
          \<in> less_than <*lex*> less_than <*lex*> less_than"
proof -
  have "fmdom' t - dom (order v') \<subseteq> fmdom' t - dom (order v)" using assms by blast
  then have "card (fmdom' t - dom (order v')) \<le> card (fmdom' t - dom (order v))"
    by (intro card_mono) simp_all
  then show ?thesis by (auto simp: process_measure_def)
qed

termination process_block
proof (relation "inv_image (less_than <*lex*> less_than <*lex*> less_than) process_measure",
    goal_cases)
  case 1
  show ?case by (intro wf_inv_image wf_lex_prod wf_less_than)
next
  case (2 t b v e n v1 v2)
  have "dom (order v2) = insert b (dom (order v))"
    using 2(3,4) by simp
  with 2(1) show ?case
    by (simp only: in_inv_image process_measure_enter)
next
  case (3 t child rest v)
  then show ?case by (simp only: in_inv_image process_measure_child)
next
  case (4 t child rest v)
  have "dom (order v) \<subseteq> dom (order (process_block t child v))"
    using 4(2) by (rule process_order_grows(1))
  then show ?case by (simp only: in_inv_image process_measure_rest)
next
  case (5 t child rest v)
  have "dom (order v) \<subseteq> dom (order v)" by simp
  then show ?case by (simp only: in_inv_image process_measure_rest)
qed

text \<open>
  The \<^verbatim>\<open>while (true)\<close> loop that walks from the head block along the parent pointers.
  It leaves the loop at an unknown pointer or at parent pointer 0 and has no other
  exit, so it is a partial function: \<open>None\<close> stands for a loop that never ends.
\<close>

partial_function (option) walk_up ::
  "(BlockPtr, TreeEntry) fmap \<Rightarrow> BlockPtr \<Rightarrow> LayoutVars \<Rightarrow> LayoutVars option" where
  "walk_up t blk v =
     (case fmlookup t blk of
        None \<Rightarrow> Some v
      | Some treeData \<Rightarrow>
          (let v' = process_block t blk v;
               blk' = parent_te treeData
           in if blk' = 0 then Some v' else walk_up t blk' v'))"

declare walk_up.simps [code]

text \<open>Positions: slot width 30, slot height 40, attestation offsets 10 and 8.\<close>

definition place_block :: "(BlockPtr \<rightharpoonup> int) \<Rightarrow> PixiBlock \<Rightarrow> PixiBlock" where
  "place_block ord pb =
     (let blockSummary = block pb;
          slotOrder = ord (selfPtr_b blockSummary)
      in pb\<lparr>position_b :=
              (Num (slot_b blockSummary * 30),
               (case slotOrder of Some k \<Rightarrow> Num (k * 40) | None \<Rightarrow> NaN))\<rparr>)"

fun place_attestations ::
  "(BlockPtr \<rightharpoonup> int) \<Rightarrow> (BlockPtr \<rightharpoonup> int) \<Rightarrow> PixiAttestation list \<Rightarrow> PixiAttestation list" where
  "place_attestations ord attCounts [] = []"
| "place_attestations ord attCounts (att # rest) =
     (let attSummary = attestation att;
          cnt = (case attCounts (head_a attSummary) of Some k \<Rightarrow> k + 1 | None \<Rightarrow> 1);
          attCounts' = attCounts(head_a attSummary \<mapsto> cnt);
          slotOrder = (case ord (head_a attSummary) of Some k \<Rightarrow> k | None \<Rightarrow> 0);
          attOrder = cnt - 1
      in att\<lparr>position_a :=
               (Num (slot_a attSummary * 30 + 10), Num (slotOrder * 40 + attOrder * 8))\<rparr>
         # place_attestations ord attCounts' rest)"

text \<open>
  The order table that \<^verbatim>\<open>layoutDag\<close> computes: the head block is pre-set to order 0,
  then the walk runs.
\<close>

definition layout_order :: "World \<Rightarrow> (BlockPtr \<rightharpoonup> int) option" where
  "layout_order w =
     map_option order
       (walk_up (tree w) (headBlock (last (head_w w)))
          \<lparr>order = [headBlock (last (head_w w)) \<mapsto> 0], slotHeights = Map.empty\<rparr>)"

definition layoutDag :: "World \<Rightarrow> World option" where
  "layoutDag w =
     (if head_w w = [] then Some w
      else (case layout_order w of
              None \<Rightarrow> None
            | Some ord \<Rightarrow>
                Some (w\<lparr>blocks_w := map (place_block ord) (blocks_w w),
                        attestations_w := place_attestations ord Map.empty (attestations_w w)\<rparr>)))"

section \<open>Relation lines\<close>

definition parentRelation :: "World \<Rightarrow> PixiBlock \<Rightarrow> RelationLine list" where
  "parentRelation w pb =
     (case getBlock w (parent_b (block pb)) of
        None \<Rightarrow> []
      | Some par \<Rightarrow> [ParentLine (selfPtr_b (block pb)) (selfPtr_b (block par))])"

definition voteRelation :: "PixiValidator \<Rightarrow> RelationLine list" where
  "voteRelation pv =
     map (\<lambda>(rank, vote). VoteLine (index pv) (selfPtr_a vote) rank)
       (zip [0 ..< length (lastVotes pv)] (lastVotes pv))"

definition blockRelation :: "PixiAttestation \<Rightarrow> RelationLine list" where
  "blockRelation pa =
     (case source_pa pa of None \<Rightarrow> [] | Some p \<Rightarrow> [SourceLine (selfPtr_a (attestation pa)) p]) @
     (case target_pa pa of None \<Rightarrow> [] | Some p \<Rightarrow> [TargetLine (selfPtr_a (attestation pa)) p]) @
     (case head_pa pa of None \<Rightarrow> [] | Some p \<Rightarrow> [HeadLine (selfPtr_a (attestation pa)) p])"

definition drawRelations :: "World \<Rightarrow> World" where
  "drawRelations w =
     w\<lparr>relationLines := relationLines w
         @ concat (map (parentRelation w) (blocks_w w))
         @ concat (map voteRelation (validators_w w))
         @ concat (map blockRelation (attestations_w w))\<rparr>"

section \<open>The reducer\<close>

text \<open>
  The merge part of \<^verbatim>\<open>updateWorld\<close>: first the head log, the validator set, the
  finalized log, the blocks and the attestations (\<open>mergeEntities\<close>), then the vote loop.
\<close>

definition maxValCount :: "World \<Rightarrow> MemoryDiff \<Rightarrow> int" where
  "maxValCount w diff =
     foldl (\<lambda>m h. if total_vc (validatorCounts h) > m then total_vc (validatorCounts h) else m)
       (valCount w) (head_d diff)"

definition mergeEntities :: "World \<Rightarrow> MemoryDiff \<Rightarrow> World" where
  "mergeEntities w diff =
     (let w1 = w\<lparr>head_w := head_w w @ head_d diff\<rparr>;
          w2 = (if maxValCount w1 diff \<noteq> valCount w1 then updateValSet w1 (maxValCount w1 diff)
                else w1);
          w3 = w2\<lparr>finalized_w := finalized_w w2 @ finalized_d diff\<rparr>;
          w4 = foldl addBlock w3 (blocks_d diff)
      in foldl addAttestation w4 (attestations_d diff))"

definition mergeDiff :: "World \<Rightarrow> MemoryDiff \<Rightarrow> World" where
  "mergeDiff w diff = foldl foldVote (mergeEntities w diff) (latestVotes_d diff)"

text \<open>
  \<^verbatim>\<open>updateWorld\<close>. The result is \<open>None\<close> when the call never returns, which happens
  exactly when the walk of \<^verbatim>\<open>layoutDag\<close> never ends.
\<close>

definition updateWorld :: "World \<Rightarrow> MemoryDiff \<Rightarrow> (UpdateResult \<times> World) option" where
  "updateWorld w diff =
     (if (case nextDiffIndex w of Some n \<Rightarrow> n < diffIndex diff | None \<Rightarrow> False)
      then Some (too_new, w)
      else if (case nextDiffIndex w of Some n \<Rightarrow> n > diffIndex diff | None \<Rightarrow> False)
      then Some (too_old, w)
      else (case layoutDag (mergeDiff w diff) of
              None \<Rightarrow> None
            | Some w' \<Rightarrow>
                Some (ok, (drawRelations w')\<lparr>nextDiffIndex := Some (diffIndex diff + 1)\<rparr>)))"

text \<open>Two calls in a row; the second runs on the world the first one returned.\<close>

definition updateWorld2 :: "World \<Rightarrow> MemoryDiff \<Rightarrow> MemoryDiff \<Rightarrow> (UpdateResult \<times> World) option" where
  "updateWorld2 w d1 d2 = Option.bind (updateWorld w d1) (\<lambda>(r, w'). updateWorld w' d2)"

section \<open>Notions used in the statements\<close>

text \<open>
  A vote is known in a world when both lookups of the vote loop succeed, that is when
  neither \<^verbatim>\<open>continue\<close> is taken.
\<close>

definition knownVote :: "World \<Rightarrow> VoteSummary \<Rightarrow> bool" where
  "knownVote w vote \<longleftrightarrow>
     getValidator w (validatorIndex vote) \<noteq> None \<and>
     getAttestation w (attestationPtr vote) \<noteq> None"

text \<open>
  The running counter of the attestation loop: \<open>seen\<close> reads the counter of a head
  pointer, \<open>same_head_before\<close> counts the earlier attestations with the same head pointer.
\<close>

definition seen :: "(BlockPtr \<rightharpoonup> int) \<Rightarrow> BlockPtr \<Rightarrow> int" where
  "seen attCounts h = (case attCounts h of Some k \<Rightarrow> k | None \<Rightarrow> 0)"

definition same_head_before :: "PixiAttestation list \<Rightarrow> nat \<Rightarrow> nat" where
  "same_head_before atts i =
     length (filter (\<lambda>pa. head_a (attestation pa) = head_a (attestation (atts ! i))) (take i atts))"

text \<open>
  The walk from a block along the parent pointers ends when it meets a pointer without
  a tree entry or an entry whose parent is 0.
\<close>

inductive spine_ends :: "(BlockPtr, TreeEntry) fmap \<Rightarrow> BlockPtr \<Rightarrow> bool" where
  unknown: "fmlookup t b = None \<Longrightarrow> spine_ends t b"
| root: "fmlookup t b = Some e \<Longrightarrow> parent_te e = 0 \<Longrightarrow> spine_ends t b"
| step: "fmlookup t b = Some e \<Longrightarrow> spine_ends t (parent_te e) \<Longrightarrow> spine_ends t b"

code_pred spine_ends .

definition layout_walk_ends :: "World \<Rightarrow> bool" where
  "layout_walk_ends w \<longleftrightarrow> head_w w = [] \<or> spine_ends (tree w) (headBlock (last (head_w w)))"

text \<open>
  Every pointer in a children list is the pointer of a delivered block, and no list
  holds a pointer twice. This is kept by the delivery of a block that was not
  delivered before and does not name itself as parent.
\<close>

definition children_ok :: "(BlockPtr, TreeEntry) fmap \<Rightarrow> BlockPtr set \<Rightarrow> bool" where
  "children_ok tr D \<longleftrightarrow>
     (\<forall>k e. fmlookup tr k = Some e \<longrightarrow> distinct (children e) \<and> set (children e) \<subseteq> D)"

section \<open>Example data\<close>

definition exampleMemory :: MemoryState where
  "exampleMemory =
     \<lparr>head_ms = 0, finalized_ms = 0, blocks_ms = 0, attestations_ms = 0, latestVotes_ms = 0\<rparr>"

definition exampleHead :: "BlockPtr \<Rightarrow> Slot \<Rightarrow> int \<Rightarrow> HeadSummary" where
  "exampleHead hb s n =
     \<lparr>headBlock = hb, slot_hs = s, proposerIndex = 0,
      validatorCounts = \<lparr>total_vc = n, active = n, slashed = 0, eligible = 0,
                         nonEligible = 0, exiting = 0, withdrawable = 0\<rparr>,
      totalStaked = 0, avgBalance = 0, depositIndex = 0,
      eth1Data = \<lparr>depositRoot = [], depositCount = 0, blockHash = []\<rparr>,
      previousFFG = \<lparr>source_ffg = 0, target_ffg = 0, head_ffg = 0\<rparr>,
      currentFFG = \<lparr>source_ffg = 0, target_ffg = 0, head_ffg = 0\<rparr>\<rparr>"

definition exampleBlock :: "BlockPtr \<Rightarrow> BlockPtr \<Rightarrow> Slot \<Rightarrow> BlockSummary" where
  "exampleBlock self par s = \<lparr>selfPtr_b = self, htr = [], slot_b = s, parent_b = par\<rparr>"

definition exampleAtt :: "AttestationPtr \<Rightarrow> Slot \<Rightarrow> BlockPtr \<Rightarrow> BlockPtr \<Rightarrow> AttestationSummary" where
  "exampleAtt self s hb tgt =
     \<lparr>selfPtr_a = self, slot_a = s, commIndex = 0, head_a = hb, target_a = tgt, source_a = 0\<rparr>"

definition exampleDiff ::
  "int \<Rightarrow> HeadSummary list \<Rightarrow> BlockSummary list \<Rightarrow> AttestationSummary list \<Rightarrow> VoteSummary list
     \<Rightarrow> MemoryDiff" where
  "exampleDiff i hs bs as vs =
     \<lparr>diffIndex = i, previous = exampleMemory, head_d = hs, finalized_d = [], blocks_d = bs,
      attestations_d = as, latestVotes_d = vs\<rparr>"

definition exampleVote :: "ValidatorIndex \<Rightarrow> AttestationPtr \<Rightarrow> VoteSummary" where
  "exampleVote vi a = \<lparr>validatorIndex = vi, attestationPtr = a\<rparr>"

lemmas example_defs =
  exampleDiff_def exampleHead_def exampleBlock_def exampleAtt_def exampleMemory_def
  exampleVote_def

lemmas model_defs =
  updateWorld_def updateWorld2_def mergeDiff_def mergeEntities_def maxValCount_def addBlock_def
  addAttestation_def foldVote_def updateTree_def newBlock_def initialWorld_def layoutDag_def
  layout_order_def drawRelations_def getBlock_def getAttestation_def getValidator_def
  resolveBlock_def updateValSet_def newValidator_def parentRelation_def voteRelation_def
  blockRelation_def place_block_def addVote_def

section \<open>What each step leaves alone\<close>

lemma addBlock_frame [simp]:
  "valCount (addBlock w b) = valCount w"
  "validators_w (addBlock w b) = validators_w w"
  "attestations_w (addBlock w b) = attestations_w w"
  "head_w (addBlock w b) = head_w w"
  "finalized_w (addBlock w b) = finalized_w w"
  "relationLines (addBlock w b) = relationLines w"
  "nextDiffIndex (addBlock w b) = nextDiffIndex w"
  by (simp_all add: addBlock_def)

lemma addAttestation_frame [simp]:
  "valCount (addAttestation w a) = valCount w"
  "validators_w (addAttestation w a) = validators_w w"
  "blocks_w (addAttestation w a) = blocks_w w"
  "tree (addAttestation w a) = tree w"
  "head_w (addAttestation w a) = head_w w"
  "finalized_w (addAttestation w a) = finalized_w w"
  "relationLines (addAttestation w a) = relationLines w"
  "nextDiffIndex (addAttestation w a) = nextDiffIndex w"
  by (simp_all add: addAttestation_def)

lemma foldVote_frame [simp]:
  "valCount (foldVote w v) = valCount w"
  "blocks_w (foldVote w v) = blocks_w w"
  "attestations_w (foldVote w v) = attestations_w w"
  "tree (foldVote w v) = tree w"
  "head_w (foldVote w v) = head_w w"
  "finalized_w (foldVote w v) = finalized_w w"
  "relationLines (foldVote w v) = relationLines w"
  "nextDiffIndex (foldVote w v) = nextDiffIndex w"
  by (simp_all add: foldVote_def split: option.splits)

lemma foldl_addBlock_frame [simp]:
  "valCount (foldl addBlock w bs) = valCount w"
  "validators_w (foldl addBlock w bs) = validators_w w"
  "attestations_w (foldl addBlock w bs) = attestations_w w"
  "head_w (foldl addBlock w bs) = head_w w"
  "finalized_w (foldl addBlock w bs) = finalized_w w"
  "relationLines (foldl addBlock w bs) = relationLines w"
  "nextDiffIndex (foldl addBlock w bs) = nextDiffIndex w"
  by (induction bs arbitrary: w; simp)+

lemma foldl_addAttestation_frame [simp]:
  "valCount (foldl addAttestation w as) = valCount w"
  "validators_w (foldl addAttestation w as) = validators_w w"
  "blocks_w (foldl addAttestation w as) = blocks_w w"
  "tree (foldl addAttestation w as) = tree w"
  "head_w (foldl addAttestation w as) = head_w w"
  "finalized_w (foldl addAttestation w as) = finalized_w w"
  "relationLines (foldl addAttestation w as) = relationLines w"
  "nextDiffIndex (foldl addAttestation w as) = nextDiffIndex w"
  by (induction as arbitrary: w; simp)+

lemma foldl_foldVote_frame [simp]:
  "valCount (foldl foldVote w vs) = valCount w"
  "blocks_w (foldl foldVote w vs) = blocks_w w"
  "attestations_w (foldl foldVote w vs) = attestations_w w"
  "tree (foldl foldVote w vs) = tree w"
  "head_w (foldl foldVote w vs) = head_w w"
  "finalized_w (foldl foldVote w vs) = finalized_w w"
  "relationLines (foldl foldVote w vs) = relationLines w"
  "nextDiffIndex (foldl foldVote w vs) = nextDiffIndex w"
  by (induction vs arbitrary: w; simp)+

lemma layoutDag_frame:
  assumes "layoutDag w = Some w'"
  shows "valCount w' = valCount w" "validators_w w' = validators_w w" "tree w' = tree w"
    "head_w w' = head_w w" "finalized_w w' = finalized_w w"
    "relationLines w' = relationLines w" "nextDiffIndex w' = nextDiffIndex w"
  using assms by (auto simp: layoutDag_def split: if_splits option.splits)

lemma drawRelations_frame [simp]:
  "valCount (drawRelations w) = valCount w"
  "validators_w (drawRelations w) = validators_w w"
  "blocks_w (drawRelations w) = blocks_w w"
  "attestations_w (drawRelations w) = attestations_w w"
  "tree (drawRelations w) = tree w"
  "head_w (drawRelations w) = head_w w"
  "finalized_w (drawRelations w) = finalized_w w"
  "nextDiffIndex (drawRelations w) = nextDiffIndex w"
  by (simp_all add: drawRelations_def)

text \<open>An accepted diff: the returned world is the merged world after layout and drawing.\<close>

lemma updateWorld_ok_iff:
  "updateWorld w diff = Some (ok, w') \<longleftrightarrow>
     (nextDiffIndex w = None \<or> nextDiffIndex w = Some (diffIndex diff)) \<and>
     (\<exists>w1. layoutDag (mergeDiff w diff) = Some w1 \<and>
           w' = (drawRelations w1)\<lparr>nextDiffIndex := Some (diffIndex diff + 1)\<rparr>)"
  by (auto simp: updateWorld_def split: option.splits)

lemma updateWorld_ok_frame:
  assumes "updateWorld w diff = Some (ok, w')"
  shows "valCount w' = valCount (mergeDiff w diff)"
    "validators_w w' = validators_w (mergeDiff w diff)"
    "tree w' = tree (mergeDiff w diff)"
    "head_w w' = head_w (mergeDiff w diff)"
    "finalized_w w' = finalized_w (mergeDiff w diff)"
    "nextDiffIndex w' = Some (diffIndex diff + 1)"
  using assms by (auto simp: updateWorld_ok_iff layoutDag_frame)

lemma updateWorld_cases:
  assumes "updateWorld w diff = Some (r, w')"
  shows "(r \<noteq> ok \<and> w' = w) \<or> (r = ok \<and> updateWorld w diff = Some (ok, w'))"
  using assms by (cases r) (auto simp: updateWorld_def split: if_splits option.splits)

lemma tree_foldl_addBlock: "tree (foldl addBlock w bs) = foldl updateTree (tree w) bs"
  by (induction bs arbitrary: w) (simp_all add: addBlock_def)

lemma mergeDiff_tree: "tree (mergeDiff w diff) = foldl updateTree (tree w) (blocks_d diff)"
  by (simp add: mergeDiff_def mergeEntities_def updateValSet_def Let_def tree_foldl_addBlock)

lemma mergeDiff_head: "head_w (mergeDiff w diff) = head_w w @ head_d diff"
  by (simp add: mergeDiff_def mergeEntities_def updateValSet_def Let_def)

section \<open>Rejected diffs\<close>

text \<open>
  Claim C2. Whenever \<^verbatim>\<open>updateWorld\<close> answers \<^verbatim>\<open>too_old\<close> or \<^verbatim>\<open>too_new\<close>, the world it
  leaves behind is the world it was called on: every log, every sprite list, the
  validator count, the tree, every vote list, every position and the drawn relation
  lines are the same, so neither the layout nor the drawing has run.
\<close>

theorem updateWorld_rejected_unchanged:
  "updateWorld w diff = Some (r, w') \<Longrightarrow> r \<noteq> ok \<Longrightarrow> w' = w"
  by (auto simp: updateWorld_def split: if_splits option.splits)

theorem updateWorld_rejected_unchanged_witness:
  "updateWorld (initialWorld\<lparr>nextDiffIndex := Some 1\<rparr>)
       (exampleDiff 5 [exampleHead 1 1 25] [exampleBlock 1 0 1] [] [])
     = Some (too_new, initialWorld\<lparr>nextDiffIndex := Some 1\<rparr>) \<and> too_new \<noteq> ok"
proof -
  obtain r w' where h: "updateWorld (initialWorld\<lparr>nextDiffIndex := Some 1\<rparr>)
       (exampleDiff 5 [exampleHead 1 1 25] [exampleBlock 1 0 1] [] []) = Some (r, w')"
    and r: "r = too_new"
    by (simp add: updateWorld_def exampleDiff_def)
  have "r \<noteq> ok" using r by simp
  from updateWorld_rejected_unchanged [OF h this] h r show ?thesis by simp
qed

section \<open>When the walk to the root ends\<close>

lemma walk_up_returns:
  assumes "spine_ends t b"
  shows "\<exists>v'. walk_up t b v = Some v'"
  using assms
proof (induction arbitrary: v)
  case (unknown t b)
  then show ?case by (subst walk_up.simps) simp
next
  case (root t b e)
  then show ?case by (subst walk_up.simps) simp
next
  case (step t b e)
  from step.IH [of "process_block t b v"] step.hyps(1) show ?case
    by (subst walk_up.simps) (simp add: Let_def)
qed

lemma walk_up_Some_spine_ends:
  assumes "walk_up t b v = Some v'"
  shows "spine_ends t b"
proof (rule walk_up.raw_induct [where P = "\<lambda>t b v v'. spine_ends t b"])
  show "walk_up t b v = Some v'" by fact
next
  fix f :: "(BlockPtr, TreeEntry) fmap \<Rightarrow> BlockPtr \<Rightarrow> LayoutVars \<Rightarrow> LayoutVars option"
    and t blk v ta
  assume IH: "\<And>t' b' v' y. f t' b' v' = Some y \<Longrightarrow> spine_ends t' b'"
    and eq: "(case fmlookup t blk of
                None \<Rightarrow> Some v
              | Some treeData \<Rightarrow>
                  (let v' = process_block t blk v;
                       blk' = parent_te treeData
                   in if blk' = 0 then Some v' else f t blk' v')) = Some ta"
  show "spine_ends t blk"
  proof (cases "fmlookup t blk")
    case None
    then show ?thesis by (rule spine_ends.unknown)
  next
    case (Some e)
    show ?thesis
    proof (cases "parent_te e = 0")
      case True
      with Some show ?thesis by (rule spine_ends.root)
    next
      case False
      with eq Some have "f t (parent_te e) (process_block t blk v) = Some ta"
        by (simp add: Let_def)
      then have "spine_ends t (parent_te e)" by (rule IH)
      with Some show ?thesis by (rule spine_ends.step)
    qed
  qed
qed

lemma walk_up_None_iff: "walk_up t b v = None \<longleftrightarrow> \<not> spine_ends t b"
  using walk_up_returns [of t b v] walk_up_Some_spine_ends [of t b v] by (cases "walk_up t b v") auto

lemma layoutDag_None_iff: "layoutDag w = None \<longleftrightarrow> \<not> layout_walk_ends w"
proof (cases "head_w w = []")
  case True
  then show ?thesis by (simp add: layoutDag_def layout_walk_ends_def)
next
  case False
  then have "layoutDag w = None \<longleftrightarrow> layout_order w = None"
    by (simp add: layoutDag_def split: option.splits)
  also have "\<dots> \<longleftrightarrow> \<not> spine_ends (tree w) (headBlock (last (head_w w)))"
    by (simp add: layout_order_def walk_up_None_iff)
  finally show ?thesis using False by (simp add: layout_walk_ends_def)
qed

text \<open>\<^verbatim>\<open>updateWorld\<close> fails to return exactly when a diff passes the index test and the
  walk of the layout does not end on the merged world.\<close>

lemma updateWorld_None_iff:
  "updateWorld w diff = None \<longleftrightarrow>
     (nextDiffIndex w = None \<or> nextDiffIndex w = Some (diffIndex diff)) \<and>
     \<not> layout_walk_ends (mergeDiff w diff)"
proof -
  have "layoutDag (mergeDiff w diff) = None \<longleftrightarrow> \<not> layout_walk_ends (mergeDiff w diff)"
    by (rule layoutDag_None_iff)
  then show ?thesis
    by (cases "layoutDag (mergeDiff w diff)"; cases "nextDiffIndex w") (auto simp: updateWorld_def)
qed

text \<open>A set of blocks closed under the parent pointer, without pointer 0: the walk stays inside.\<close>

lemma spine_ends_leaves_cycle:
  assumes "spine_ends t b"
    and "\<forall>c \<in> C. \<exists>e. fmlookup t c = Some e \<and> parent_te e \<noteq> 0 \<and> parent_te e \<in> C"
  shows "b \<notin> C"
  using assms by (induction) auto

text \<open>
  The ordering rule of \<^verbatim>\<open>updateWorld\<close>, on every world and diff for which the walk of
  the layout ends: a diff ahead of the expected index is \<^verbatim>\<open>too_new\<close>, one behind it
  is \<^verbatim>\<open>too_old\<close>, one that meets it (or any diff when no index is expected yet) is
  applied, the expected index becomes its index plus one, and the same diff is
  \<^verbatim>\<open>too_old\<close> from then on.
\<close>

lemma updateWorld_too_new:
  "nextDiffIndex w = Some n \<Longrightarrow> n < diffIndex diff \<Longrightarrow> updateWorld w diff = Some (too_new, w)"
  by (simp add: updateWorld_def)

lemma updateWorld_too_old:
  "nextDiffIndex w = Some n \<Longrightarrow> n > diffIndex diff \<Longrightarrow> updateWorld w diff = Some (too_old, w)"
  by (simp add: updateWorld_def)

lemma updateWorld_applies:
  assumes "nextDiffIndex w = None \<or> nextDiffIndex w = Some (diffIndex diff)"
    and "layout_walk_ends (mergeDiff w diff)"
  shows "\<exists>w'. updateWorld w diff = Some (ok, w') \<and>
              nextDiffIndex w' = Some (diffIndex diff + 1) \<and>
              updateWorld w' diff = Some (too_old, w')"
proof -
  from assms(2) obtain w1 where l: "layoutDag (mergeDiff w diff) = Some w1"
    using layoutDag_None_iff [of "mergeDiff w diff"] by (cases "layoutDag (mergeDiff w diff)") auto
  define w' where "w' = (drawRelations w1)\<lparr>nextDiffIndex := Some (diffIndex diff + 1)\<rparr>"
  have "updateWorld w diff = Some (ok, w')"
    using assms(1) l by (auto simp: updateWorld_ok_iff w'_def)
  moreover have n: "nextDiffIndex w' = Some (diffIndex diff + 1)"
    by (simp add: w'_def)
  moreover have "updateWorld w' diff = Some (too_old, w')"
    using n by (intro updateWorld_too_old [of _ "diffIndex diff + 1"]) simp_all
  ultimately show ?thesis by blast
qed

text \<open>
  The walk has no exit for a cycle of parent pointers: when the head block of the
  merged world lies in a set of tree entries that is closed under the parent pointer
  and avoids parent 0, a diff that passes the index test makes \<^verbatim>\<open>updateWorld\<close> loop
  forever.
\<close>

lemma updateWorld_hangs_on_cycle:
  assumes "nextDiffIndex w = None \<or> nextDiffIndex w = Some (diffIndex diff)"
    and "head_w w @ head_d diff \<noteq> []"
    and "headBlock (last (head_w w @ head_d diff)) \<in> C"
    and "\<forall>c \<in> C. \<exists>e. fmlookup (foldl updateTree (tree w) (blocks_d diff)) c = Some e \<and>
                      parent_te e \<noteq> 0 \<and> parent_te e \<in> C"
  shows "updateWorld w diff = None"
proof -
  have "\<not> spine_ends (tree (mergeDiff w diff)) (headBlock (last (head_w (mergeDiff w diff))))"
    using spine_ends_leaves_cycle [of "tree (mergeDiff w diff)" _ C] assms(3,4)
    unfolding mergeDiff_tree mergeDiff_head by blast
  then have "\<not> layout_walk_ends (mergeDiff w diff)"
    using assms(2) by (simp add: layout_walk_ends_def mergeDiff_head)
  with assms(1) show ?thesis by (simp add: updateWorld_None_iff)
qed

section \<open>Diffs that meet the expected index\<close>

text \<open>
  Claim C1 says that in a world with an expected index a diff ahead of it is
  \<^verbatim>\<open>too_new\<close>, a diff behind it is \<^verbatim>\<open>too_old\<close>, and a diff that meets it is applied,
  after which the expected index is its index plus one. The first two parts hold
  (\<open>updateWorld_too_new\<close>, \<open>updateWorld_too_old\<close>), and so does the third whenever the
  walk of the layout ends (\<open>updateWorld_applies\<close>). The source announces a result
  \<^verbatim>\<open>too_old|ok|too_new\<close> for every call, and \<^verbatim>\<open>process_block\<close> guards its recursion
  against blocks it has seen, but the \<^verbatim>\<open>while (true)\<close> walk to the root has no such
  guard. Diff 0 delivers blocks 1 (parent 0) and 2 (parent 1) and is applied; diff 1
  meets the expected index 1 and delivers a block that reuses pointer 1 with parent 2
  as the new head. The parent pointers now form the cycle 1, 2, 1 and the call never
  returns.
\<close>

theorem expected_diff_with_parent_cycle_never_returns:
  "map_option (\<lambda>(r, w). (r, nextDiffIndex w))
     (updateWorld initialWorld
        (exampleDiff 0 [exampleHead 2 2 0] [exampleBlock 1 0 1, exampleBlock 2 1 2] [] []))
     = Some (ok, Some 1) \<and>
   updateWorld2 initialWorld
     (exampleDiff 0 [exampleHead 2 2 0] [exampleBlock 1 0 1, exampleBlock 2 1 2] [] [])
     (exampleDiff 1 [exampleHead 1 3 0] [exampleBlock 1 2 3] [] [])
     = None"
proof -
  define d0 where "d0 = exampleDiff 0 [exampleHead 2 2 0] [exampleBlock 1 0 1, exampleBlock 2 1 2] [] []"
  define d1 where "d1 = exampleDiff 1 [exampleHead 1 3 0] [exampleBlock 1 2 3] [] []"
  have first: "map_option (\<lambda>(r, w). (r, nextDiffIndex w)) (updateWorld initialWorld d0)
      = Some (ok, Some 1)"
    by (simp add: d0_def model_defs example_defs walk_up.simps)
  then obtain w1 where run: "updateWorld initialWorld d0 = Some (ok, w1)"
    and idx: "nextDiffIndex w1 = Some 1"
    by auto
  have t1: "tree w1 = foldl updateTree fmempty (blocks_d d0)"
    using updateWorld_ok_frame(3) [OF run] by (simp add: mergeDiff_tree initialWorld_def)
  have "fmlookup (foldl updateTree (tree w1) (blocks_d d1)) 1
          = Some \<lparr>parent_te = 2, slot_te = 3, children = [1, 2]\<rparr>"
    "fmlookup (foldl updateTree (tree w1) (blocks_d d1)) 2
          = Some \<lparr>parent_te = 1, slot_te = 2, children = [2]\<rparr>"
    by (simp_all add: t1 d0_def d1_def updateTree_def example_defs)
  then have cycle: "\<forall>c \<in> {1, 2}. \<exists>e. fmlookup (foldl updateTree (tree w1) (blocks_d d1)) c = Some e \<and>
      parent_te e \<noteq> 0 \<and> parent_te e \<in> {1, 2}"
    by simp
  have hd: "head_w w1 @ head_d d1 \<noteq> []" "headBlock (last (head_w w1 @ head_d d1)) \<in> {1, 2}"
    by (simp_all add: d1_def example_defs)
  have "nextDiffIndex w1 = None \<or> nextDiffIndex w1 = Some (diffIndex d1)"
    using idx by (simp add: d1_def example_defs)
  then have "updateWorld w1 d1 = None"
    using hd cycle by (rule updateWorld_hangs_on_cycle)
  with run have "updateWorld2 initialWorld d0 d1 = None"
    by (simp add: updateWorld2_def)
  with first show ?thesis unfolding d0_def d1_def by simp
qed

section \<open>The first diff\<close>

text \<open>
  Claim C10 says that a world without an expected index applies every diff, whatever
  its index, answers \<^verbatim>\<open>ok\<close> and expects the index plus one. There is indeed no index
  test in such a world, and the diff is applied whenever the walk of the layout ends
  (\<open>updateWorld_applies\<close>). A first diff whose blocks 1 and 2 name each other as parent
  sends the walk round the cycle 2, 1, 2 for ever: the first call never returns.
\<close>

theorem first_diff_with_parent_cycle_never_returns:
  "nextDiffIndex initialWorld = None \<and>
   updateWorld initialWorld
     (exampleDiff 7 [exampleHead 2 2 0] [exampleBlock 1 2 1, exampleBlock 2 1 2] [] [])
     = None"
proof -
  define d where "d = exampleDiff 7 [exampleHead 2 2 0] [exampleBlock 1 2 1, exampleBlock 2 1 2] [] []"
  have none: "nextDiffIndex initialWorld = None"
    by (simp add: initialWorld_def)
  have "fmlookup (foldl updateTree (tree initialWorld) (blocks_d d)) 1
          = Some \<lparr>parent_te = 2, slot_te = 1, children = [1]\<rparr>"
    "fmlookup (foldl updateTree (tree initialWorld) (blocks_d d)) 2
          = Some \<lparr>parent_te = 1, slot_te = 2, children = [1]\<rparr>"
    by (simp_all add: d_def initialWorld_def updateTree_def example_defs)
  then have cycle: "\<forall>c \<in> {1, 2}. \<exists>e. fmlookup (foldl updateTree (tree initialWorld) (blocks_d d)) c = Some e \<and>
      parent_te e \<noteq> 0 \<and> parent_te e \<in> {1, 2}"
    by simp
  have hd: "head_w initialWorld @ head_d d \<noteq> []"
    "headBlock (last (head_w initialWorld @ head_d d)) \<in> {1, 2}"
    by (simp_all add: d_def example_defs)
  have "nextDiffIndex initialWorld = None \<or> nextDiffIndex initialWorld = Some (diffIndex d)"
    using none by simp
  then have "updateWorld initialWorld d = None"
    using hd cycle by (rule updateWorld_hangs_on_cycle)
  with none show ?thesis unfolding d_def by simp
qed

text \<open>The same world applies a first diff with index 7 whose blocks form a chain.\<close>

lemma first_diff_with_any_index_is_applied:
  "map_option (\<lambda>(r, w). (r, nextDiffIndex w))
     (updateWorld initialWorld
        (exampleDiff 7 [exampleHead 2 2 0] [exampleBlock 1 0 1, exampleBlock 2 1 2] [] []))
   = Some (ok, Some 8)"
  by (simp add: model_defs example_defs walk_up.simps)

section \<open>Children lists of the tree index\<close>

text \<open>
  A block whose pointer already has an entry overwrites parent and slot of that entry
  and keeps its children.
\<close>

lemma updateTree_existing_self:
  assumes "fmlookup tr (selfPtr_b b) = Some e" and "parent_b b \<noteq> selfPtr_b b"
  shows "fmlookup (updateTree tr b) (selfPtr_b b)
           = Some (e\<lparr>parent_te := parent_b b, slot_te := slot_b b\<rparr>)"
  using assms by (auto simp: updateTree_def Let_def split: option.splits)

text \<open>
  When the entry of the parent exists as well and the delivered parent is not 0, the
  children of the parent stay as they are: the block is not appended, whatever parent
  its entry had before.
\<close>

lemma updateTree_existing_self_not_appended:
  assumes "fmlookup tr (selfPtr_b b) = Some e" and "fmlookup tr (parent_b b) = Some p"
    and "parent_b b \<noteq> 0" and "parent_b b \<noteq> selfPtr_b b"
  shows "fmlookup (updateTree tr b) (parent_b b) = Some p"
  using assms by (auto simp: updateTree_def Let_def split: option.splits)

text \<open>With delivered parent 0 and an existing entry of pointer 0 the block is appended on
  every delivery.\<close>

lemma updateTree_existing_self_parent_zero:
  assumes "fmlookup tr (selfPtr_b b) = Some e" and "fmlookup tr 0 = Some p"
    and "parent_b b = 0" and "selfPtr_b b \<noteq> 0"
  shows "fmlookup (updateTree tr b) 0 = Some (p\<lparr>children := children p @ [selfPtr_b b]\<rparr>)"
  using assms by (auto simp: updateTree_def Let_def split: option.splits)

lemma children_ok_updateTree:
  assumes "children_ok tr D" and "selfPtr_b b \<notin> D" and "parent_b b \<noteq> selfPtr_b b"
  shows "children_ok (updateTree tr b) (insert (selfPtr_b b) D)"
proof -
  have old: "distinct (children e) \<and> set (children e) \<subseteq> D" if "fmlookup tr k = Some e" for k e
    using assms(1) that unfolding children_ok_def by blast
  have fresh: "selfPtr_b b \<notin> set (children e)" if "fmlookup tr k = Some e" for k e
    using old [OF that] assms(2) by blast
  show ?thesis
    unfolding children_ok_def
  proof (intro allI impI)
    fix k e
    assume look: "fmlookup (updateTree tr b) k = Some e"
    show "distinct (children e) \<and> set (children e) \<subseteq> insert (selfPtr_b b) D"
    proof (cases "fmlookup tr (selfPtr_b b)")
      case None
      show ?thesis
      proof (cases "fmlookup tr (parent_b b)")
        case pNone: None
        with None look assms(3) old show ?thesis
          by (auto simp: updateTree_def Let_def split: if_splits)
      next
        case (Some p)
        with None look assms(3) old [of "parent_b b" p] fresh [of "parent_b b" p] old [of k e]
        show ?thesis
          by (auto simp: updateTree_def Let_def split: if_splits)
      qed
    next
      case (Some s)
      show ?thesis
      proof (cases "fmlookup tr (parent_b b)")
        case pNone: None
        with Some look assms(3) old [of "selfPtr_b b" s] old [of k e] show ?thesis
          by (auto simp: updateTree_def Let_def split: if_splits)
      next
        case pSome: (Some p)
        with Some look assms(3) old [of "selfPtr_b b" s] old [of "parent_b b" p]
          fresh [of "parent_b b" p] old [of k e]
        show ?thesis
          by (auto simp: updateTree_def Let_def split: if_splits)
      qed
    qed
  qed
qed

lemma children_ok_foldl_updateTree:
  assumes "children_ok tr D" and "distinct (map selfPtr_b bs)"
    and "\<forall>b \<in> set bs. selfPtr_b b \<notin> D \<and> parent_b b \<noteq> selfPtr_b b"
  shows "children_ok (foldl updateTree tr bs) (D \<union> selfPtr_b ` set bs)"
  using assms
proof (induction bs arbitrary: tr D)
  case Nil
  then show ?case by simp
next
  case (Cons b bs)
  have "children_ok (updateTree tr b) (insert (selfPtr_b b) D)"
    using Cons.prems by (intro children_ok_updateTree) simp_all
  moreover have "distinct (map selfPtr_b bs)" using Cons.prems(2) by simp
  moreover have "\<forall>c \<in> set bs. selfPtr_b c \<notin> insert (selfPtr_b b) D \<and> parent_b c \<noteq> selfPtr_b c"
    using Cons.prems(2,3) by (auto simp: image_iff)
  ultimately have "children_ok (foldl updateTree (updateTree tr b) bs)
      (insert (selfPtr_b b) D \<union> selfPtr_b ` set bs)"
    by (rule Cons.IH)
  then show ?case by simp
qed

text \<open>
  Blocks delivered once each, none of them its own parent, in any order: no children
  list of the resulting tree holds a pointer twice.
\<close>

lemma children_distinct_without_redelivery:
  assumes "distinct (map selfPtr_b bs)" and "\<forall>b \<in> set bs. parent_b b \<noteq> selfPtr_b b"
    and "fmlookup (foldl updateTree fmempty bs) k = Some e"
  shows "distinct (children e)"
proof -
  have "children_ok fmempty {}" by (simp add: children_ok_def)
  then have "children_ok (foldl updateTree fmempty bs) ({} \<union> selfPtr_b ` set bs)"
    using assms(1,2) by (intro children_ok_foldl_updateTree) simp_all
  with assms(3) show ?thesis unfolding children_ok_def by blast
qed

text \<open>
  Claim C3 says that no children list ever holds a pointer twice, in any delivery
  order and also when a block is delivered more than once. Without redelivery this
  holds (\<open>children_distinct_without_redelivery\<close>). The source guards the append with
  the comment \<^verbatim>\<open>don't add twice, only when new or previously unset\<close>, but a block
  whose parent pointer is 0 passes the guard on every delivery
  (\<open>updateTree_existing_self_parent_zero\<close>). Here block 1 with parent 0 arrives in
  diff 0 and again in diff 1; both diffs are applied and the entry of pointer 0 then
  lists child 1 twice.
\<close>

theorem redelivered_root_block_is_listed_twice:
  "map_option (\<lambda>(r, w). (r, map_option children (fmlookup (tree w) 0)))
     (updateWorld2 initialWorld
        (exampleDiff 0 [exampleHead 1 1 0] [exampleBlock 1 0 1] [] [])
        (exampleDiff 1 [] [exampleBlock 1 0 1] [] []))
   = Some (ok, Some [1, 1])"
  by (simp add: model_defs example_defs walk_up.simps)

text \<open>
  Claim C4 says that a delivered block whose pointer already has a placeholder entry
  gets its parent and slot written in place and is appended to the children of its
  parent unless it is there already. The write in place happens; the append does not.
  The guard reads \<^verbatim>\<open>prevSelf.parent\<close> after the delivered parent was stored in it, so
  for a parent other than 0 whose entry exists nothing is appended
  (\<open>updateTree_existing_self_not_appended\<close>). Blocks 1 (parent
  0), 3 (parent 2) and 2 (parent 1) arrive in this order: the placeholder of pointer 2
  receives parent 1 and slot 2, yet the children of pointer 1 are still only \<open>[1]\<close>.
\<close>

theorem placeholder_block_is_not_appended_to_parent:
  "map_option (\<lambda>(r, w). (r, fmlookup (tree w) 2, map_option children (fmlookup (tree w) 1)))
     (updateWorld initialWorld
        (exampleDiff 0 [exampleHead 3 3 0]
           [exampleBlock 1 0 1, exampleBlock 3 2 3, exampleBlock 2 1 2] [] []))
   = Some (ok, Some \<lparr>parent_te = 1, slot_te = 2, children = [3]\<rparr>, Some [1])"
  by (simp add: model_defs example_defs walk_up.simps)

section \<open>Validator count\<close>

lemma foldl_running_max:
  "foldl (\<lambda>m h. if f h > m then f h else m) (a::int) hs = Max (insert a (f ` set hs))"
proof (induction hs arbitrary: a)
  case Nil
  then show ?case by simp
next
  case (Cons h hs)
  have "Max (insert (max a (f h)) (f ` set hs)) = Max (insert a (insert (f h) (f ` set hs)))"
    by (cases "f ` set hs = {}") (simp_all add: max.assoc)
  moreover have "(if f h > a then f h else a) = max a (f h)" by simp
  ultimately show ?case using Cons.IH [of "max a (f h)"] by simp
qed

lemma maxValCount_Max:
  "maxValCount w diff = Max (insert (valCount w) ((\<lambda>h. total_vc (validatorCounts h)) ` set (head_d diff)))"
  unfolding maxValCount_def by (rule foldl_running_max)

lemma maxValCount_ge: "valCount w \<le> maxValCount w diff"
  by (simp add: maxValCount_Max)

lemma mergeEntities_valCount:
  "valCount (mergeEntities w diff) = maxValCount w diff"
  by (simp add: mergeEntities_def updateValSet_def maxValCount_def Let_def)

lemma mergeEntities_validators:
  "validators_w (mergeEntities w diff) =
     validators_w w @ map newValidator [valCount w .. maxValCount w diff - 1]"
  by (simp add: mergeEntities_def updateValSet_def maxValCount_def Let_def)

lemma index_addVote [simp]: "index (addVote pv a) = index pv"
  by (simp add: addVote_def Let_def)

lemma map_index_update_first:
  "(\<And>x. index (f x) = index x) \<Longrightarrow> map index (update_first P f xs) = map index xs"
  by (induction xs) simp_all

lemma foldVote_indices [simp]:
  "map index (validators_w (foldVote w v)) = map index (validators_w w)"
  by (simp add: foldVote_def map_index_update_first split: option.splits)

lemma foldl_foldVote_indices [simp]:
  "map index (validators_w (foldl foldVote w vs)) = map index (validators_w w)"
  by (induction vs arbitrary: w) simp_all

lemma mergeDiff_valCount: "valCount (mergeDiff w diff) = maxValCount w diff"
  by (simp add: mergeDiff_def mergeEntities_valCount)

lemma mergeDiff_indices:
  "map index (validators_w (mergeDiff w diff)) =
     map index (validators_w w) @ [valCount w .. maxValCount w diff - 1]"
  by (simp add: mergeDiff_def mergeEntities_validators newValidator_def comp_def)

text \<open>
  Claim C7. An accepted diff sets the validator count to the maximum of the old count
  and every \<^verbatim>\<open>validatorCounts.total\<close> among its head summaries, and adds one validator
  for each index from the old count up to the new one behind the existing validators.
  No call lowers the count or removes a validator.
\<close>

theorem validator_count_is_running_maximum:
  assumes "updateWorld w diff = Some (r, w')"
  shows "valCount w \<le> valCount w' \<and>
         (r = ok \<longrightarrow> valCount w' =
            Max (insert (valCount w) ((\<lambda>h. total_vc (validatorCounts h)) ` set (head_d diff)))) \<and>
         map index (validators_w w') = map index (validators_w w) @ [valCount w .. valCount w' - 1]"
proof -
  from updateWorld_cases [OF assms] show ?thesis
  proof
    assume "r \<noteq> ok \<and> w' = w"
    then show ?thesis by simp
  next
    assume "r = ok \<and> updateWorld w diff = Some (ok, w')"
    then have r: "r = ok" and h: "updateWorld w diff = Some (ok, w')" by simp_all
    have vc: "valCount w' = maxValCount w diff"
      using updateWorld_ok_frame(1) [OF h] by (simp add: mergeDiff_valCount)
    have vs: "validators_w w' = validators_w (mergeDiff w diff)"
      using updateWorld_ok_frame(2) [OF h] .
    show ?thesis
      using vc vs maxValCount_ge [of w diff]
      by (simp add: mergeDiff_indices maxValCount_Max [symmetric])
  qed
qed

theorem validator_count_is_running_maximum_witness:
  "map_option (\<lambda>(r, w'). (r, valCount w', map index (validators_w w')))
     (updateWorld (initialWorld\<lparr>valCount := 1, validators_w := [newValidator 0]\<rparr>)
        (exampleDiff 0 [exampleHead 1 1 2, exampleHead 1 1 4, exampleHead 1 1 3]
           [exampleBlock 1 0 1] [] []))
   = Some (ok, Max {1, 2, 4, 3}, [0] @ [1 .. 4 - 1])"
proof -
  define w0 where "w0 = initialWorld\<lparr>valCount := 1, validators_w := [newValidator 0]\<rparr>"
  define d where "d = exampleDiff 0 [exampleHead 1 1 2, exampleHead 1 1 4, exampleHead 1 1 3]
           [exampleBlock 1 0 1] [] []"
  have "map_option fst (updateWorld w0 d) = Some ok"
    by (simp add: w0_def d_def model_defs example_defs walk_up.simps)
  then obtain w' where h: "updateWorld w0 d = Some (ok, w')"
    by auto
  have "valCount w0 = 1" "map index (validators_w w0) = [0]"
    "(\<lambda>h. total_vc (validatorCounts h)) ` set (head_d d) = {2, 4, 3}"
    by (simp_all add: w0_def d_def initialWorld_def newValidator_def example_defs)
  with validator_count_is_running_maximum [OF h] h show ?thesis
    unfolding w0_def [symmetric] d_def [symmetric] by simp
qed

section \<open>Retained votes\<close>

text \<open>What \<^verbatim>\<open>addVote\<close> guarantees on every input: at most three votes, ascending targets.\<close>

lemma addVote_length: "length (lastVotes (addVote val att)) \<le> 3"
  by (simp add: addVote_def Let_def)

lemma addVote_sorted: "sorted (map target_a (lastVotes (addVote val att)))"
proof -
  have s: "sorted (map target_a (sort_key target_a (lastVotes val @ [att])))"
    by (rule sorted_sort_key)
  have "sorted (take 3 (map target_a (sort_key target_a (lastVotes val @ [att]))))"
    using s by (rule sorted_wrt_take)
  then have "sorted (map target_a (take 3 (sort_key target_a (lastVotes val @ [att]))))"
    by (simp only: take_map)
  then show ?thesis
    using s by (simp add: addVote_def Let_def)
qed

text \<open>A full list of three votes with lower targets swallows every newer vote.\<close>

lemma addVote_full_drops_newer:
  assumes "length (lastVotes val) = 3"
    and "sorted (map target_a (lastVotes val))"
    and "\<forall>a \<in> set (lastVotes val). target_a a \<le> target_a att"
  shows "lastVotes (addVote val att) = lastVotes val"
proof -
  have "sorted (map target_a (lastVotes val @ [att]))"
    using assms(2,3) by (simp add: sorted_append)
  then have "sort_key target_a (lastVotes val @ [att]) = lastVotes val @ [att]"
    by (rule sort_key_id_if_sorted)
  then show ?thesis using assms(1) by (simp add: addVote_def Let_def)
qed

text \<open>
  Claim C5 says that a validator retains at most three votes, the most recent ones, in
  descending target order; the source comment reads
  \<^verbatim>\<open>only keep track of last 3 votes\<close>. The bound of three holds. The comparator sorts
  ascending by the target pointer and the first three are kept, so the three lowest
  targets survive. Validator 0 votes for attestations 1, 2, 3, 4 (targets 1, 2, 3, 4):
  it retains 1, 2, 3 in ascending order and the newest vote is gone.
\<close>

theorem newest_vote_is_dropped:
  "map_option (\<lambda>(r, w). (r, map (\<lambda>pv. map selfPtr_a (lastVotes pv)) (validators_w w)))
     (updateWorld initialWorld
        (exampleDiff 0 [exampleHead 1 1 1] [exampleBlock 1 0 1]
           [exampleAtt 1 1 1 1, exampleAtt 2 2 1 2, exampleAtt 3 3 1 3, exampleAtt 4 4 1 4]
           [exampleVote 0 1, exampleVote 0 2, exampleVote 0 3, exampleVote 0 4]))
   = Some (ok, [[1, 2, 3]])"
  by (simp add: model_defs example_defs walk_up.simps)

section \<open>Votes that reference unknown validators or attestations\<close>

lemma foldVote_unknown: "\<not> knownVote w vote \<Longrightarrow> foldVote w vote = w"
  by (auto simp: knownVote_def foldVote_def split: option.splits)

lemma getValidator_None_iff:
  "getValidator w vi = None \<longleftrightarrow> vi \<notin> set (map index (validators_w w))"
  by (auto simp: getValidator_def find_None_iff)

lemma knownVote_foldVote [simp]: "knownVote (foldVote w v) vote = knownVote w vote"
  by (simp add: knownVote_def getValidator_None_iff getAttestation_def)

lemma foldl_foldVote_known:
  "foldl foldVote w vs = foldl foldVote w (filter (knownVote w) vs)"
proof (induction vs arbitrary: w)
  case Nil
  show ?case by simp
next
  case (Cons v vs)
  show ?case
  proof (cases "knownVote w v")
    case True
    have "(\<lambda>x. knownVote (foldVote w v) x) = knownVote w" by (simp add: fun_eq_iff)
    with Cons.IH [of "foldVote w v"] True show ?thesis by simp
  next
    case False
    with Cons.IH [of w] show ?thesis by (simp add: foldVote_unknown)
  qed
qed

lemma find_update_first_other:
  assumes "\<And>x. P x \<Longrightarrow> \<not> Q x \<and> \<not> Q (f x)"
  shows "find Q (update_first P f xs) = find Q xs"
  using assms by (induction xs) auto

lemma foldVote_other_validator:
  assumes "validatorIndex vote = vi \<longrightarrow> \<not> knownVote w vote"
  shows "getValidator (foldVote w vote) vi = getValidator w vi"
proof (cases "knownVote w vote")
  case False
  then show ?thesis by (simp add: foldVote_unknown)
next
  case True
  with assms have ne: "validatorIndex vote \<noteq> vi" by blast
  have "find (\<lambda>pv. index pv = vi)
          (update_first (\<lambda>pv. index pv = validatorIndex vote) (\<lambda>pv. addVote pv a) xs)
        = find (\<lambda>pv. index pv = vi) xs" for a xs
    using ne by (intro find_update_first_other) simp
  then show ?thesis
    by (simp add: foldVote_def getValidator_def split: option.splits)
qed

lemma foldl_foldVote_other_validator:
  assumes "\<forall>vote \<in> set vs. validatorIndex vote = vi \<longrightarrow> \<not> knownVote w vote"
  shows "getValidator (foldl foldVote w vs) vi = getValidator w vi"
  using assms
proof (induction vs arbitrary: w)
  case Nil
  show ?case by simp
next
  case (Cons v vs)
  have "getValidator (foldl foldVote (foldVote w v) vs) vi = getValidator (foldVote w v) vi"
    using Cons.prems by (intro Cons.IH) simp
  also have "\<dots> = getValidator w vi"
    using Cons.prems by (intro foldVote_other_validator) simp
  finally show ?case by simp
qed

lemma find_append_Some: "find P xs = Some x \<Longrightarrow> find P (xs @ ys) = Some x"
  by (induction xs) (auto split: if_splits)

lemma getValidator_mergeEntities:
  assumes "getValidator w vi = Some pv"
  shows "getValidator (mergeEntities w diff) vi = Some pv"
  using assms by (simp add: getValidator_def mergeEntities_validators find_append_Some)

text \<open>
  Claim C6. A vote of an accepted diff whose validator index or attestation pointer is
  unknown when the vote loop reaches it (the entities of the same diff are merged
  before) is skipped and leaves the whole world as it is; the vote loop as a whole
  does what it would do on the known votes alone. Nothing about a skipped vote is
  kept: a later call changes the vote list of a validator only through known votes of
  its own diff for that validator, whatever attestations it delivers. Skipping is an
  ordinary step of the loop, not an error.
\<close>

theorem unknown_votes_are_dropped:
  "(\<not> knownVote ws vote \<longrightarrow> foldVote ws vote = ws) \<and>
   mergeDiff w diff =
     foldl foldVote (mergeEntities w diff)
       (filter (knownVote (mergeEntities w diff)) (latestVotes_d diff)) \<and>
   (updateWorld w diff = Some (r, w') \<and> getValidator w vi = Some pv \<and>
    (\<forall>v \<in> set (latestVotes_d diff). validatorIndex v = vi \<longrightarrow> \<not> knownVote (mergeEntities w diff) v)
      \<longrightarrow> getValidator w' vi = Some pv)"
proof (intro conjI impI)
  assume "\<not> knownVote ws vote"
  then show "foldVote ws vote = ws" by (rule foldVote_unknown)
next
  show "mergeDiff w diff =
     foldl foldVote (mergeEntities w diff)
       (filter (knownVote (mergeEntities w diff)) (latestVotes_d diff))"
    unfolding mergeDiff_def by (rule foldl_foldVote_known)
next
  assume a: "updateWorld w diff = Some (r, w') \<and> getValidator w vi = Some pv \<and>
    (\<forall>v \<in> set (latestVotes_d diff). validatorIndex v = vi \<longrightarrow> \<not> knownVote (mergeEntities w diff) v)"
  from a have u: "updateWorld w diff = Some (r, w')" and g: "getValidator w vi = Some pv"
    and n: "\<forall>v \<in> set (latestVotes_d diff). validatorIndex v = vi \<longrightarrow> \<not> knownVote (mergeEntities w diff) v"
    by simp_all
  from updateWorld_cases [OF u] show "getValidator w' vi = Some pv"
  proof
    assume "r \<noteq> ok \<and> w' = w"
    with g show ?thesis by simp
  next
    assume "r = ok \<and> updateWorld w diff = Some (ok, w')"
    then have "validators_w w' = validators_w (mergeDiff w diff)"
      using updateWorld_ok_frame(2) by blast
    then have "getValidator w' vi = getValidator (mergeDiff w diff) vi"
      by (simp add: getValidator_def)
    also have "\<dots> = getValidator (mergeEntities w diff) vi"
      unfolding mergeDiff_def using n by (rule foldl_foldVote_other_validator)
    also have "\<dots> = Some pv"
      using g by (rule getValidator_mergeEntities)
    finally show ?thesis .
  qed
qed

theorem unknown_votes_are_dropped_witness:
  "\<not> knownVote
       (mergeEntities (initialWorld\<lparr>valCount := 1, validators_w := [newValidator 0]\<rparr>)
          (exampleDiff 0 [exampleHead 1 1 1] [exampleBlock 1 0 1] [exampleAtt 5 1 1 1]
             [exampleVote 0 99, exampleVote 7 5]))
       (exampleVote 0 99) \<and>
   foldVote
       (mergeEntities (initialWorld\<lparr>valCount := 1, validators_w := [newValidator 0]\<rparr>)
          (exampleDiff 0 [exampleHead 1 1 1] [exampleBlock 1 0 1] [exampleAtt 5 1 1 1]
             [exampleVote 0 99, exampleVote 7 5]))
       (exampleVote 0 99)
     = mergeEntities (initialWorld\<lparr>valCount := 1, validators_w := [newValidator 0]\<rparr>)
          (exampleDiff 0 [exampleHead 1 1 1] [exampleBlock 1 0 1] [exampleAtt 5 1 1 1]
             [exampleVote 0 99, exampleVote 7 5]) \<and>
   map_option (\<lambda>(r, w). (r, getValidator w 0))
       (updateWorld (initialWorld\<lparr>valCount := 1, validators_w := [newValidator 0]\<rparr>)
          (exampleDiff 0 [exampleHead 1 1 1] [exampleBlock 1 0 1] [exampleAtt 5 1 1 1]
             [exampleVote 0 99, exampleVote 7 5]))
     = Some (ok, Some (newValidator 0))"
proof -
  define w0 where "w0 = initialWorld\<lparr>valCount := 1, validators_w := [newValidator 0]\<rparr>"
  define d0 where "d0 = exampleDiff 0 [exampleHead 1 1 1] [exampleBlock 1 0 1]
      [exampleAtt 5 1 1 1] [exampleVote 0 99, exampleVote 7 5]"
  have votes: "latestVotes_d d0 = [exampleVote 0 99, exampleVote 7 5]"
    by (simp add: d0_def exampleDiff_def)
  have unknown: "\<not> knownVote (mergeEntities w0 d0) (exampleVote 0 99)"
    by (simp add: knownVote_def w0_def d0_def model_defs example_defs)
  have val: "getValidator w0 0 = Some (newValidator 0)"
    by (simp add: w0_def getValidator_def newValidator_def)
  have "map_option fst (updateWorld w0 d0) = Some ok"
    by (simp add: w0_def d0_def model_defs example_defs walk_up.simps)
  then obtain w' where run: "updateWorld w0 d0 = Some (ok, w')"
    by auto
  have skipped: "\<forall>v \<in> set (latestVotes_d d0).
      validatorIndex v = 0 \<longrightarrow> \<not> knownVote (mergeEntities w0 d0) v"
    using unknown by (simp add: votes exampleVote_def)
  from unknown_votes_are_dropped [of "mergeEntities w0 d0" "exampleVote 0 99" w0 d0 ok w' 0
      "newValidator 0"] unknown run val skipped
  show ?thesis
    unfolding w0_def [symmetric] d0_def [symmetric] by simp
qed

text \<open>
  The scenario of the specification: the vote for attestation 99 arrives in diff 0,
  the attestation itself in diff 1. Validator 0 has no vote after either diff.
\<close>

lemma late_attestation_does_not_attach_the_vote:
  "map_option (\<lambda>(r, w). (r, map lastVotes (validators_w w),
                          map (\<lambda>pa. selfPtr_a (attestation pa)) (attestations_w w)))
     (updateWorld2 initialWorld
        (exampleDiff 0 [exampleHead 1 1 1] [exampleBlock 1 0 1] [] [exampleVote 0 99])
        (exampleDiff 1 [] [] [exampleAtt 99 1 1 1] []))
   = Some (ok, [[]], [99])"
  by (simp add: model_defs example_defs walk_up.simps)

section \<open>Positions computed by the layout\<close>

lemma layoutDag_no_head: "head_w w = [] \<Longrightarrow> layoutDag w = Some w"
  by (simp add: layoutDag_def)

lemma layoutDag_with_head:
  assumes "layoutDag w = Some w'" and "head_w w \<noteq> []"
  obtains ord where "layout_order w = Some ord"
    and "blocks_w w' = map (place_block ord) (blocks_w w)"
    and "attestations_w w' = place_attestations ord Map.empty (attestations_w w)"
  using assms by (auto simp: layoutDag_def split: option.splits)

lemma length_place_attestations [simp]:
  "length (place_attestations ord attCounts atts) = length atts"
  by (induction atts arbitrary: attCounts) (simp_all add: Let_def)

lemma seen_upd:
  "seen (attCounts(h \<mapsto> (case attCounts h of Some k \<Rightarrow> k + 1 | None \<Rightarrow> 1))) g
     = seen attCounts g + (if g = h then 1 else 0)"
  by (simp add: seen_def split: option.splits)

lemma same_head_before_Cons:
  "same_head_before (att # rest) (Suc j)
     = same_head_before rest j + (if head_a (attestation (rest ! j)) = head_a (attestation att) then 1 else 0)"
  by (simp add: same_head_before_def)

lemma place_attestations_Cons_Suc:
  "place_attestations ord attCounts (att # rest) ! Suc j =
     place_attestations ord
       (attCounts(head_a (attestation att) \<mapsto>
          (case attCounts (head_a (attestation att)) of Some k \<Rightarrow> k + 1 | None \<Rightarrow> 1))) rest ! j"
  by (simp add: Let_def)

lemma place_attestations_Cons_0:
  "place_attestations ord attCounts (att # rest) ! 0 =
     att\<lparr>position_a :=
        (Num (slot_a (attestation att) * 30 + 10),
         Num ((case ord (head_a (attestation att)) of Some k \<Rightarrow> k | None \<Rightarrow> 0) * 40
              + seen attCounts (head_a (attestation att)) * 8))\<rparr>"
  by (simp add: Let_def seen_def split: option.splits)

lemma place_attestations_nth:
  assumes "i < length atts"
  shows "place_attestations ord attCounts atts ! i =
     (atts ! i)\<lparr>position_a :=
        (Num (slot_a (attestation (atts ! i)) * 30 + 10),
         Num ((case ord (head_a (attestation (atts ! i))) of Some k \<Rightarrow> k | None \<Rightarrow> 0) * 40
              + (seen attCounts (head_a (attestation (atts ! i))) + int (same_head_before atts i)) * 8))\<rparr>"
  using assms
proof (induction atts arbitrary: attCounts i)
  case Nil
  then show ?case by simp
next
  case (Cons att rest)
  show ?case
  proof (cases i)
    case 0
    have "same_head_before (att # rest) 0 = 0" by (simp add: same_head_before_def)
    then show ?thesis
      unfolding 0 place_attestations_Cons_0 by simp
  next
    case (Suc j)
    with Cons.prems have j: "j < length rest" by simp
    have "seen (attCounts(head_a (attestation att) \<mapsto>
              (case attCounts (head_a (attestation att)) of Some k \<Rightarrow> k + 1 | None \<Rightarrow> 1)))
            (head_a (attestation (rest ! j))) + int (same_head_before rest j)
        = seen attCounts (head_a (attestation (rest ! j))) + int (same_head_before (att # rest) (Suc j))"
      unfolding seen_upd same_head_before_Cons by simp
    then show ?thesis
      unfolding Suc place_attestations_Cons_Suc Cons.IH [OF j] by simp
  qed
qed

lemma seen_empty [simp]: "seen Map.empty h = 0"
  by (simp add: seen_def)

text \<open>
  Claim C8 says that a block without a slot order keeps its previous position. The
  loop over the block sprites has no such test: it calls \<^verbatim>\<open>position.set\<close> on every
  block, with \<^verbatim>\<open>slot * slotWidth\<close> and \<^verbatim>\<open>order[selfPtr] * slotHeight\<close>. Block 5
  (slot 3, parent 7) is not reachable from head block 1, gets no order and was never
  positioned; the first layout moves it from the origin to x = 90.
\<close>

theorem unordered_block_is_moved:
  "map position_b (blocks_w (mergeDiff initialWorld
       (exampleDiff 0 [exampleHead 1 1 0] [exampleBlock 1 0 1, exampleBlock 5 7 3] [] [])))
     = [(Num 0, Num 0), (Num 0, Num 0)] \<and>
   map_option (\<lambda>ord. ord 5) (layout_order (mergeDiff initialWorld
       (exampleDiff 0 [exampleHead 1 1 0] [exampleBlock 1 0 1, exampleBlock 5 7 3] [] [])))
     = Some None \<and>
   map_option (\<lambda>(r, w). (r, map position_b (blocks_w w)))
     (updateWorld initialWorld
       (exampleDiff 0 [exampleHead 1 1 0] [exampleBlock 1 0 1, exampleBlock 5 7 3] [] []))
     = Some (ok, [(Num 30, Num 0), (Num 90, NaN)])"
  by (simp add: model_defs example_defs walk_up.simps)

text \<open>
  Claim C8 as amended. A layout cycle with a head whose walk from the head block along
  the parent pointers ends returns, and it sets the x coordinate of every block, with
  or without a slot order, to slot times 30, and the y coordinate of every block that
  has a slot order to order times 40; the block data is untouched. A layout cycle
  without a head returns and changes nothing.
\<close>

theorem layout_positions_every_block:
  assumes "layout_walk_ends w"
  shows "\<exists>w'. layoutDag w = Some w' \<and>
           (head_w w = [] \<longrightarrow> w' = w) \<and>
           (head_w w \<noteq> [] \<longrightarrow>
              (\<exists>ord. layout_order w = Some ord \<and>
                 length (blocks_w w') = length (blocks_w w) \<and>
                 (\<forall>i < length (blocks_w w).
                    block (blocks_w w' ! i) = block (blocks_w w ! i) \<and>
                    fst (position_b (blocks_w w' ! i)) = Num (slot_b (block (blocks_w w ! i)) * 30) \<and>
                    (\<forall>k. ord (selfPtr_b (block (blocks_w w ! i))) = Some k \<longrightarrow>
                         snd (position_b (blocks_w w' ! i)) = Num (k * 40)))))"
proof -
  from assms have "layoutDag w \<noteq> None"
    by (simp add: layoutDag_None_iff)
  then obtain w' where run: "layoutDag w = Some w'" by auto
  have "w' = w" if "head_w w = []"
    using that run by (simp add: layoutDag_no_head)
  moreover have "\<exists>ord. layout_order w = Some ord \<and>
                 length (blocks_w w') = length (blocks_w w) \<and>
                 (\<forall>i < length (blocks_w w).
                    block (blocks_w w' ! i) = block (blocks_w w ! i) \<and>
                    fst (position_b (blocks_w w' ! i)) = Num (slot_b (block (blocks_w w ! i)) * 30) \<and>
                    (\<forall>k. ord (selfPtr_b (block (blocks_w w ! i))) = Some k \<longrightarrow>
                         snd (position_b (blocks_w w' ! i)) = Num (k * 40)))"
    if "head_w w \<noteq> []"
  proof -
    from run that obtain ord where ord: "layout_order w = Some ord"
      and blocks: "blocks_w w' = map (place_block ord) (blocks_w w)"
      by (rule layoutDag_with_head)
    show ?thesis
      using ord blocks by (intro exI [of _ ord]) (simp add: place_block_def Let_def)
  qed
  ultimately show ?thesis using run by blast
qed

theorem layout_positions_every_block_witness:
  "layout_walk_ends initialWorld \<and> head_w initialWorld = [] \<and>
   layoutDag initialWorld = Some initialWorld \<and>
   layout_walk_ends (mergeDiff initialWorld
        (exampleDiff 0 [exampleHead 1 1 0] [exampleBlock 1 0 1, exampleBlock 5 7 3] [] [])) \<and>
   map_option (\<lambda>w'. map (\<lambda>pb. (selfPtr_b (block pb), fst (position_b pb))) (blocks_w w'))
     (layoutDag (mergeDiff initialWorld
        (exampleDiff 0 [exampleHead 1 1 0] [exampleBlock 1 0 1, exampleBlock 5 7 3] [] [])))
   = Some [(1, Num (1 * 30)), (5, Num (3 * 30))]"
proof -
  define w where "w = mergeDiff initialWorld
        (exampleDiff 0 [exampleHead 1 1 0] [exampleBlock 1 0 1, exampleBlock 5 7 3] [] [])"
  have no_head: "head_w initialWorld = []"
    by (simp add: initialWorld_def)
  then have ends0: "layout_walk_ends initialWorld"
    by (simp add: layout_walk_ends_def)
  from layout_positions_every_block [OF ends0] no_head
  have run0: "layoutDag initialWorld = Some initialWorld"
    by auto
  have blocks: "map block (blocks_w w) = [exampleBlock 1 0 1, exampleBlock 5 7 3]"
    and hd: "head_w w \<noteq> []"
    by (simp_all add: w_def model_defs example_defs)
  then have len: "length (blocks_w w) = 2"
    by (metis length_map length_Cons list.size(3) numeral_2_eq_2)
  have "headBlock (last (head_w w)) = 1"
    and "fmlookup (tree w) 1 = Some \<lparr>parent_te = 0, slot_te = 1, children = [1]\<rparr>"
    by (simp_all add: w_def model_defs example_defs)
  then have "spine_ends (tree w) (headBlock (last (head_w w)))"
    by (intro spine_ends.root [of _ _ "\<lparr>parent_te = 0, slot_te = 1, children = [1]\<rparr>"]) simp_all
  then have ends: "layout_walk_ends w"
    by (simp add: layout_walk_ends_def)
  from layout_positions_every_block [OF ends] hd obtain w' where
    run: "layoutDag w = Some w'" and
    l: "length (blocks_w w') = length (blocks_w w)" and
    p: "\<forall>i < length (blocks_w w).
          block (blocks_w w' ! i) = block (blocks_w w ! i) \<and>
          fst (position_b (blocks_w w' ! i)) = Num (slot_b (block (blocks_w w ! i)) * 30)"
    by blast
  have b0: "block (blocks_w w ! 0) = exampleBlock 1 0 1" and b1: "block (blocks_w w ! 1) = exampleBlock 5 7 3"
    using blocks len by (metis nth_map nth_Cons_0 zero_less_numeral, metis One_nat_def nth_map nth_Cons_0 nth_Cons_Suc one_less_numeral_iff semiring_norm(76))
  have "map (\<lambda>pb. (selfPtr_b (block pb), fst (position_b pb))) (blocks_w w')
      = [(1, Num (1 * 30)), (5, Num (3 * 30))]"
    using l len p b0 b1
    by (intro nth_equalityI) (auto simp: less_Suc_eq numeral_2_eq_2 exampleBlock_def)
  with run ends ends0 no_head run0 show ?thesis unfolding w_def [symmetric] by simp
qed

text \<open>
  Two attestations with the same head pointer never share a y coordinate in a layout
  cycle: the later one lies at least 8 further down.
\<close>

lemma same_head_before_mono:
  assumes "i < j" and "j < length atts"
    and "head_a (attestation (atts ! i)) = head_a (attestation (atts ! j))"
  shows "same_head_before atts i < same_head_before atts j"
proof -
  define P :: "PixiAttestation \<Rightarrow> bool"
    where "P = (\<lambda>pa. head_a (attestation pa) = head_a (attestation (atts ! j)))"
  have i: "i < length atts" using assms(1,2) by simp
  have "take j atts = take (Suc i) (take j atts) @ drop (Suc i) (take j atts)"
    by (rule append_take_drop_id [symmetric])
  moreover have "take (Suc i) (take j atts) = take (Suc i) atts"
    using assms(1) by (simp add: min_def del: take_Suc_Cons)
  moreover have "take (Suc i) atts = take i atts @ [atts ! i]"
    using i by (rule take_Suc_conv_app_nth)
  ultimately have split: "take j atts = take i atts @ [atts ! i] @ drop (Suc i) (take j atts)"
    by (metis append_assoc)
  have "P (atts ! i)" using assms(3) by (simp add: P_def)
  then have "length (filter P (take i atts))
      < length (filter P (take i atts @ [atts ! i] @ drop (Suc i) (take j atts)))"
    by simp
  then have "length (filter P (take i atts)) < length (filter P (take j atts))"
    by (simp only: split [symmetric])
  then show ?thesis
    using assms(3) by (simp add: same_head_before_def P_def)
qed

lemma same_head_attestations_fan_out:
  assumes "i < j" and "j < length atts"
    and "head_a (attestation (atts ! i)) = head_a (attestation (atts ! j))"
  shows "\<exists>yi yj. snd (position_a (place_attestations ord Map.empty atts ! i)) = Num yi \<and>
                 snd (position_a (place_attestations ord Map.empty atts ! j)) = Num yj \<and>
                 yi + 8 \<le> yj"
proof -
  have "same_head_before atts i < same_head_before atts j"
    using assms by (rule same_head_before_mono)
  then have "int (same_head_before atts i) * 8 + 8 \<le> int (same_head_before atts j) * 8"
    by simp
  moreover have "i < length atts" using assms(1,2) by simp
  ultimately show ?thesis
    using assms(2,3) by (simp add: place_attestations_nth)
qed

text \<open>
  Claim C9 says that an attestation sits at the slot and order of its head block, plus
  a vertical offset. The source takes the column from the slot of the attestation
  itself and adds a horizontal offset of 10. An attestation of slot 5 whose head is
  block 1 (slot 1, at x = 30) is placed at x = 160.
\<close>

theorem attestation_column_is_its_own_slot:
  "map_option (\<lambda>(r, w). (r, map (\<lambda>pb. (selfPtr_b (block pb), position_b pb)) (blocks_w w),
                          map (\<lambda>pa. (head_a (attestation pa), position_a pa)) (attestations_w w)))
     (updateWorld initialWorld
        (exampleDiff 0 [exampleHead 1 1 0] [exampleBlock 1 0 1] [exampleAtt 1 5 1 1] []))
   = Some (ok, [(1, (Num 30, Num 0))], [(1, (Num 160, Num 0))])"
  by (simp add: model_defs example_defs walk_up.simps)

text \<open>
  Claim C9 as amended. A layout cycle with a head whose walk from the head block along
  the parent pointers ends returns, and it places each attestation at x = its own slot
  times 30 plus 10 and y = order times 40 plus k times 8, where order is the slot order
  of the block its head pointer names (0 when that pointer has no order in this cycle)
  and k is the number of attestations before it in the list with the same head
  pointer. Nothing else of the attestation changes. Of two attestations with the same
  head pointer the later one lies at least 8 further down.
\<close>

theorem layout_positions_attestations:
  assumes "head_w w \<noteq> []" and "layout_walk_ends w"
  shows "\<exists>w' ord. layoutDag w = Some w' \<and> layout_order w = Some ord \<and>
           length (attestations_w w') = length (attestations_w w) \<and>
           (\<forall>i < length (attestations_w w).
              attestations_w w' ! i =
                (attestations_w w ! i)\<lparr>position_a :=
                   (Num (slot_a (attestation (attestations_w w ! i)) * 30 + 10),
                    Num ((case ord (head_a (attestation (attestations_w w ! i))) of
                            Some k \<Rightarrow> k | None \<Rightarrow> 0) * 40
                         + int (same_head_before (attestations_w w) i) * 8))\<rparr>) \<and>
           (\<forall>j < length (attestations_w w). \<forall>i < j.
              head_a (attestation (attestations_w w ! i)) = head_a (attestation (attestations_w w ! j)) \<longrightarrow>
              (\<exists>yi yj. snd (position_a (attestations_w w' ! i)) = Num yi \<and>
                       snd (position_a (attestations_w w' ! j)) = Num yj \<and> yi + 8 \<le> yj))"
proof -
  from assms(2) have "layoutDag w \<noteq> None"
    by (simp add: layoutDag_None_iff)
  then obtain w' where run: "layoutDag w = Some w'" by auto
  from run assms(1) obtain ord where ord: "layout_order w = Some ord"
    and atts: "attestations_w w' = place_attestations ord Map.empty (attestations_w w)"
    by (rule layoutDag_with_head)
  have "\<forall>i < length (attestations_w w).
          attestations_w w' ! i =
            (attestations_w w ! i)\<lparr>position_a :=
               (Num (slot_a (attestation (attestations_w w ! i)) * 30 + 10),
                Num ((case ord (head_a (attestation (attestations_w w ! i))) of
                        Some k \<Rightarrow> k | None \<Rightarrow> 0) * 40
                     + int (same_head_before (attestations_w w) i) * 8))\<rparr>"
    by (simp add: atts place_attestations_nth)
  moreover have "\<forall>j < length (attestations_w w). \<forall>i < j.
      head_a (attestation (attestations_w w ! i)) = head_a (attestation (attestations_w w ! j)) \<longrightarrow>
      (\<exists>yi yj. snd (position_a (attestations_w w' ! i)) = Num yi \<and>
               snd (position_a (attestations_w w' ! j)) = Num yj \<and> yi + 8 \<le> yj)"
    unfolding atts using same_head_attestations_fan_out by blast
  moreover have "length (attestations_w w') = length (attestations_w w)"
    by (simp add: atts)
  ultimately show ?thesis using ord run by blast
qed

theorem layout_positions_attestations_witness:
  "layout_walk_ends (mergeDiff initialWorld
        (exampleDiff 0 [exampleHead 1 1 0] [exampleBlock 1 0 1]
           [exampleAtt 1 5 1 1, exampleAtt 2 5 1 1, exampleAtt 3 2 9 1] [])) \<and>
   map_option (\<lambda>w'. map position_a (attestations_w w'))
     (layoutDag (mergeDiff initialWorld
        (exampleDiff 0 [exampleHead 1 1 0] [exampleBlock 1 0 1]
           [exampleAtt 1 5 1 1, exampleAtt 2 5 1 1, exampleAtt 3 2 9 1] [])))
   = Some [(Num (5 * 30 + 10), Num (0 * 40 + 0 * 8)),
           (Num (5 * 30 + 10), Num (0 * 40 + 1 * 8)),
           (Num (2 * 30 + 10), Num (0 * 40 + 0 * 8))]"
proof -
  define w where "w = mergeDiff initialWorld
        (exampleDiff 0 [exampleHead 1 1 0] [exampleBlock 1 0 1]
           [exampleAtt 1 5 1 1, exampleAtt 2 5 1 1, exampleAtt 3 2 9 1] [])"
  have hd: "head_w w \<noteq> []"
    by (simp add: w_def model_defs example_defs)
  have len: "length (attestations_w w) = 3"
    by (simp add: w_def model_defs example_defs)
  have a: "attestation (attestations_w w ! 0) = exampleAtt 1 5 1 1"
    "attestation (attestations_w w ! Suc 0) = exampleAtt 2 5 1 1"
    "attestation (attestations_w w ! 2) = exampleAtt 3 2 9 1"
    by (simp_all add: w_def model_defs example_defs)
  have k: "same_head_before (attestations_w w) 0 = 0"
    "same_head_before (attestations_w w) (Suc 0) = 1"
    "same_head_before (attestations_w w) 2 = 0"
    by (simp_all add: same_head_before_def w_def model_defs example_defs)
  have orders: "map_option (\<lambda>ord. (ord 1, ord 9)) (layout_order w) = Some (Some 0, None)"
    by (simp add: w_def model_defs example_defs walk_up.simps)
  have "headBlock (last (head_w w)) = 1"
    and "fmlookup (tree w) 1 = Some \<lparr>parent_te = 0, slot_te = 1, children = [1]\<rparr>"
    by (simp_all add: w_def model_defs example_defs)
  then have "spine_ends (tree w) (headBlock (last (head_w w)))"
    by (intro spine_ends.root [of _ _ "\<lparr>parent_te = 0, slot_te = 1, children = [1]\<rparr>"]) simp_all
  then have ends: "layout_walk_ends w"
    by (simp add: layout_walk_ends_def)
  from layout_positions_attestations [OF hd ends] obtain w' ord where
    run: "layoutDag w = Some w'" and
    lo: "layout_order w = Some ord" and
    l: "length (attestations_w w') = length (attestations_w w)" and
    p: "\<forall>i < length (attestations_w w).
          attestations_w w' ! i =
            (attestations_w w ! i)\<lparr>position_a :=
               (Num (slot_a (attestation (attestations_w w ! i)) * 30 + 10),
                Num ((case ord (head_a (attestation (attestations_w w ! i))) of
                        Some k \<Rightarrow> k | None \<Rightarrow> 0) * 40
                     + int (same_head_before (attestations_w w) i) * 8))\<rparr>"
    by blast
  from orders lo have o: "ord 1 = Some 0" "ord 9 = None" by simp_all
  have "position_a (attestations_w w' ! 0) = (Num 160, Num 0)"
    "position_a (attestations_w w' ! 1) = (Num 160, Num 8)"
    "position_a (attestations_w w' ! 2) = (Num 70, Num 0)"
    using p len by (simp_all add: a k o exampleAtt_def)
  then have "map position_a (attestations_w w') = [(Num 160, Num 0), (Num 160, Num 8), (Num 70, Num 0)]"
    using l len by (intro nth_equalityI) (auto simp: less_Suc_eq numeral_3_eq_3 numeral_2_eq_2)
  with run ends show ?thesis unfolding w_def [symmetric] by simp
qed

end
